theory Spec2Isabelle
  imports Main "HOL-Library.AList"
begin

section \<open>StickyRolo (Code.js): the metadata parser and the context extractor\<close>

text \<open>
  A shallow embedding of \<^verbatim>\<open>src/Code.js\<close>: \<^verbatim>\<open>processBuffer\<close> and the line loop and
  backfill pass of \<^verbatim>\<open>parseBodyContent\<close>, and \<^verbatim>\<open>getCurrentContext\<close>.

  JavaScript strings are modelled as \<^typ>\<open>string\<close>. Plain objects used as
  dictionaries (\<^verbatim>\<open>metadata\<close>, \<^verbatim>\<open>properties\<close>) are association lists in creation
  order, because \<^verbatim>\<open>Object.keys\<close> depends on it. \<^verbatim>\<open>null\<close> and \<^verbatim>\<open>undefined\<close>
  are \<^term>\<open>None\<close>.

  Step 1 of \<^verbatim>\<open>parseBodyContent\<close>, which reads the host's paragraphs and image objects
  into \<^verbatim>\<open>lines\<close>, is not modelled: the parser is taken from \<^verbatim>\<open>lines\<close> on.

  The file holds its functions twice, in lines 1--368 and again from there on. The two
  copies differ in step 1 and in the condition of the first loop of \<^verbatim>\<open>processBuffer\<close>;
  everything else modelled here is the same text in both.
\<close>

subsection \<open>Strings\<close>

text \<open>
  A \<^typ>\<open>char\<close> is a code unit below 256. Of these, \<^verbatim>\<open>String.prototype.trim\<close> strips
  the white space and line terminators: tab, line feed, vertical tab, form feed, carriage
  return, space and the no-break space U+00A0. The other characters that \<^verbatim>\<open>trim\<close> strips
  (U+1680, U+2000 to U+200A, U+2028, U+2029, U+202F, U+205F, U+3000, U+FEFF) lie above 255
  and do not occur in a \<^typ>\<open>string\<close>.
\<close>

definition is_ws :: "char \<Rightarrow> bool" where
  "is_ws c =
     (c \<in> set [CHR 0x09, CHR 0x0A, CHR 0x0B, CHR 0x0C, CHR 0x0D, CHR 0x20, CHR 0xA0])"

definition js_trim :: "string \<Rightarrow> string" where
  "js_trim s = rev (dropWhile is_ws (rev (dropWhile is_ws s)))"

text \<open>\<^verbatim>\<open>s.startsWith(p)\<close>.\<close>

definition startsWith :: "string \<Rightarrow> string \<Rightarrow> bool" where
  "startsWith s p = (take (length p) s = p)"

text \<open>\<^verbatim>\<open>s.includes(c)\<close> for a one-character needle, the only use in the source.\<close>

definition js_includes :: "string \<Rightarrow> char \<Rightarrow> bool" where
  "js_includes s c = (c \<in> set s)"

text \<open>\<^verbatim>\<open>s.split(c)\<close> for a one-character separator: always at least one part.\<close>

fun js_split :: "string \<Rightarrow> char \<Rightarrow> string list" where
  "js_split [] c = [[]]"
| "js_split (x # xs) c =
     (if x = c then [] # js_split xs c
      else (case js_split xs c of [] \<Rightarrow> [[x]] | p # ps \<Rightarrow> (x # p) # ps))"

text \<open>\<^verbatim>\<open>parts.join(sep)\<close>.\<close>

fun js_join :: "string list \<Rightarrow> string \<Rightarrow> string" where
  "js_join [] sep = []"
| "js_join [x] sep = x"
| "js_join (x # y # ys) sep = x @ sep @ js_join (y # ys) sep"

text \<open>
  Truthiness of a value that is \<^verbatim>\<open>null\<close>, \<^verbatim>\<open>undefined\<close> or a string: only a
  non-empty string is truthy.
\<close>

fun truthy :: "string option \<Rightarrow> bool" where
  "truthy None = False"
| "truthy (Some s) = (s \<noteq> [])"

subsection \<open>Plain objects as dictionaries\<close>

type_synonym 'v obj = "(string \<times> 'v) list"

text \<open>\<^verbatim>\<open>o[k]\<close> for an own property.\<close>

definition obj_get :: "'v obj \<Rightarrow> string \<Rightarrow> 'v option" where
  "obj_get m k = map_of m k"

text \<open>
  \<^verbatim>\<open>o[k] = v\<close> on an object created by \<^verbatim>\<open>{}\<close>: an existing key keeps its place, a
  new key is appended. The key \<^verbatim>\<open>__proto__\<close> is the accessor inherited from
  \<^verbatim>\<open>Object.prototype\<close>: assigning to it creates no own property.
\<close>

definition obj_set :: "'v obj \<Rightarrow> string \<Rightarrow> 'v \<Rightarrow> 'v obj" where
  "obj_set m k v = (if k = ''__proto__'' then m else AList.update k v m)"

text \<open>
  \<^verbatim>\<open>Object.keys(o)\<close>: the keys that are array indices (canonical decimal numerals
  below \<open>2^32 - 1\<close>) in ascending numeric order, then the other keys in creation order.
\<close>

definition is_digit :: "char \<Rightarrow> bool" where
  "is_digit c = (c \<in> set ''0123456789'')"

definition digit_val :: "char \<Rightarrow> nat" where
  "digit_val c = of_char c - 48"

definition dec_val :: "string \<Rightarrow> nat" where
  "dec_val s = foldl (\<lambda>n c. 10 * n + digit_val c) 0 s"

definition is_array_index :: "string \<Rightarrow> bool" where
  "is_array_index s =
     (case s of [] \<Rightarrow> False
      | c # cs \<Rightarrow> list_all is_digit s \<and> (if c = CHR ''0'' then cs = [] else True)
                 \<and> dec_val s < 4294967295)"

definition obj_keys :: "'v obj \<Rightarrow> string list" where
  "obj_keys m =
     (let ks = map fst m
      in sort_key dec_val (filter is_array_index ks) @ filter (\<lambda>k. \<not> is_array_index k) ks)"

subsection \<open>Lines and metadata items\<close>

text \<open>
  The objects pushed on \<^verbatim>\<open>lines\<close> by step 1 of \<^verbatim>\<open>parseBodyContent\<close>; \<open>ltext\<close> is the
  \<^verbatim>\<open>text\<close> property.
\<close>

record lineObj =
  ltext :: string
  style :: string
  imageUrl :: "string option"

text \<open>
  The object stored under \<^verbatim>\<open>metadata[name]\<close>; \<open>item_imageUrl\<close> is its
  \<^verbatim>\<open>imageUrl\<close> property.
\<close>

record item =
  description :: string
  properties :: "string obj"
  category :: string
  item_imageUrl :: "string option"

subsection \<open>processBuffer\<close>

text \<open>
  The first loop of \<^verbatim>\<open>processBuffer\<close>:
  \<^verbatim>\<open>while (buf.length > 0 && buf[0].text === "" && !buf[0].imageUrl) buf.shift();\<close>
\<close>

fun shiftLeading :: "lineObj list \<Rightarrow> lineObj list" where
  "shiftLeading [] = []"
| "shiftLeading (b # bs) =
     (if ltext b = [] \<and> \<not> truthy (imageUrl b) then shiftLeading bs else b # bs)"

text \<open>
  The \<^verbatim>\<open>for\<close> loop of \<^verbatim>\<open>processBuffer\<close> over \<^verbatim>\<open>buf[startIndex..]\<close>, with the loop's
  variables \<^verbatim>\<open>properties\<close> and \<^verbatim>\<open>foundImageUrl\<close> as accumulators. The image check comes
  before the test for the stop marker, as in the source.
\<close>

fun scanLines :: "lineObj list \<Rightarrow> string obj \<Rightarrow> string option \<Rightarrow> string obj \<times> string option" where
  "scanLines [] props found = (props, found)"
| "scanLines (b # bs) props found =
     (let line = ltext b;
          found' = (if \<not> truthy found \<and> truthy (imageUrl b) then imageUrl b else found)
      in if startsWith line ''_'' then (props, found')
         else if js_includes line CHR '':'' then
           (let parts = js_split line CHR '':'';
                key = js_trim (hd parts);
                val = js_trim (js_join (tl parts) '':'')
            in if key \<noteq> [] \<and> val \<noteq> [] then scanLines bs (obj_set props key val) found'
               else scanLines bs props found')
         else scanLines bs props found')"

text \<open>
  The body of \<^verbatim>\<open>processBuffer\<close> after its first loop, on the shifted \<^verbatim>\<open>buf\<close>, with the
  enclosing \<^verbatim>\<open>metadata\<close> passed in and returned. Every index is read under the source's
  own length test.
\<close>

definition processShifted :: "item obj \<Rightarrow> lineObj list \<Rightarrow> string \<Rightarrow> item obj" where
  "processShifted metadata buf pathStr =
     (if length buf = 0 then metadata
      else
        (let name = ltext (buf ! 0);
             descr = (if length buf > 1 \<and> \<not> js_includes (ltext (buf ! 1)) CHR '':''
                         \<and> \<not> startsWith (ltext (buf ! 1)) ''_''
                      then ltext (buf ! 1) else []);
             found0 = (if truthy (imageUrl (buf ! 0)) then imageUrl (buf ! 0) else None);
             found1 = (if \<not> truthy found0 \<and> length buf > 1 \<and> truthy (imageUrl (buf ! 1))
                       then imageUrl (buf ! 1) else found0);
             startIndex = (if descr \<noteq> [] then 2 else 1);
             (props, foundImageUrl) = scanLines (drop startIndex buf) [] found1
         in if name \<noteq> []
            then obj_set metadata name
                   \<lparr>description = descr, properties = props, category = pathStr,
                    item_imageUrl = foundImageUrl\<rparr>
            else metadata))"

text \<open>\<^verbatim>\<open>processBuffer(buf, pathStr)\<close> of lines 143--195.\<close>

definition processBuffer :: "item obj \<Rightarrow> lineObj list \<Rightarrow> string \<Rightarrow> item obj" where
  "processBuffer metadata buf pathStr = processShifted metadata (shiftLeading buf) pathStr"

text \<open>
  \<^verbatim>\<open>Code.js\<close> holds a second copy of its functions from line 368 on. Its
  \<^verbatim>\<open>processBuffer\<close> (lines 486--536) differs from the first in the condition of the
  first loop only, which does not look at the image:
  \<^verbatim>\<open>while (buf.length > 0 && buf[0].text === "") buf.shift();\<close>
\<close>

fun shiftLeading2 :: "lineObj list \<Rightarrow> lineObj list" where
  "shiftLeading2 [] = []"
| "shiftLeading2 (b # bs) = (if ltext b = [] then shiftLeading2 bs else b # bs)"

definition processBuffer2 :: "item obj \<Rightarrow> lineObj list \<Rightarrow> string \<Rightarrow> item obj" where
  "processBuffer2 metadata buf pathStr = processShifted metadata (shiftLeading2 buf) pathStr"

subsection \<open>The heading stack\<close>

text \<open>
  \<^verbatim>\<open>headingStack\<close> is a JavaScript array of strings. An assignment past the end leaves
  holes; \<^verbatim>\<open>join\<close> prints a hole as the empty string and nothing else in the source reads
  one, so a hole is modelled as the empty string.
\<close>

text \<open>\<^verbatim>\<open>a.slice(0, e)\<close>: a negative \<open>e\<close> counts from the end.\<close>

definition js_slice0 :: "string list \<Rightarrow> int \<Rightarrow> string list" where
  "js_slice0 xs e = (if e < 0 then take (nat (int (length xs) + e)) xs else take (nat e) xs)"

text \<open>
  \<^verbatim>\<open>a[i] = v\<close>: a negative \<open>i\<close> names an ordinary property and changes no element; an
  index past the end extends the array.
\<close>

definition arr_assign :: "string list \<Rightarrow> int \<Rightarrow> string \<Rightarrow> string list" where
  "arr_assign xs i v =
     (if i < 0 then xs
      else if nat i < length xs then xs[nat i := v]
      else xs @ replicate (nat i - length xs) [] @ [v])"

text \<open>\<^verbatim>\<open>a.length = n\<close>.\<close>

definition arr_set_length :: "string list \<Rightarrow> nat \<Rightarrow> string list" where
  "arr_set_length xs n =
     (if n \<le> length xs then take n xs else xs @ replicate (n - length xs) [])"

text \<open>
  \<^verbatim>\<open>lineObj.style.match(/^HEADING_(\d)$/)\<close> followed by \<^verbatim>\<open>parseInt(headingMatch[1], 10)\<close>:
  the level when the style is \<^verbatim>\<open>HEADING_\<close> and exactly one digit.
\<close>

definition headingMatch :: "string \<Rightarrow> nat option" where
  "headingMatch s =
     (if length s = 9 \<and> take 8 s = ''HEADING_'' \<and> is_digit (s ! 8)
      then Some (digit_val (s ! 8)) else None)"

subsection \<open>The line loop of parseBodyContent\<close>

text \<open>The variables of \<^verbatim>\<open>parseBodyContent\<close> that the loop over \<^verbatim>\<open>lines\<close> changes.\<close>

record pstate =
  metadata :: "item obj"
  buffer :: "lineObj list"
  headingStack :: "string list"
  currentPath :: string

definition init_state :: pstate where
  "init_state = \<lparr>metadata = [], buffer = [], headingStack = [], currentPath = []\<rparr>"

text \<open>
  \<^verbatim>\<open>if (buffer.length > 0) { processBuffer(buffer, currentPath); buffer = []; }\<close>
\<close>

definition flush :: "pstate \<Rightarrow> pstate" where
  "flush s =
     (if length (buffer s) > 0
      then s\<lparr>metadata := processBuffer (metadata s) (buffer s) (currentPath s), buffer := []\<rparr>
      else s)"

text \<open>The body of \<^verbatim>\<open>lines.forEach(function(lineObj) { ... })\<close>.\<close>

definition step :: "pstate \<Rightarrow> lineObj \<Rightarrow> pstate" where
  "step s lineObj =
     (case headingMatch (style lineObj) of
        Some level \<Rightarrow>
          (let s1 = flush s;
               parentPath = js_join (js_slice0 (headingStack s1) (int level - 1)) '' > ''
           in s1\<lparr>currentPath := parentPath,
                 buffer := buffer s1 @ [lineObj],
                 headingStack :=
                   arr_set_length (arr_assign (headingStack s1) (int level - 1) (ltext lineObj))
                     level\<rparr>)
      | None \<Rightarrow>
          if ltext lineObj = [] \<and> \<not> truthy (imageUrl lineObj)
          then (let s1 = flush s in s1\<lparr>currentPath := js_join (headingStack s1) '' > ''\<rparr>)
          else
            (let s1 = (if length (buffer s) = 0
                       then s\<lparr>currentPath := js_join (headingStack s) '' > ''\<rparr> else s)
             in s1\<lparr>buffer := buffer s1 @ [lineObj]\<rparr>))"

text \<open>Step 3 of \<^verbatim>\<open>parseBodyContent\<close>: the loop and the flush after it.\<close>

definition parseLines :: "lineObj list \<Rightarrow> item obj" where
  "parseLines lines = metadata (flush (foldl step init_state lines))"

subsection \<open>The backfill pass\<close>

text \<open>
  The inner loop: the keys \<^verbatim>\<open>childName\<close> with
  \<^verbatim>\<open>metadata[childName].category === expectedChildCategory\<close>, in \<^verbatim>\<open>Object.keys\<close> order.
\<close>

definition childrenOf :: "item obj \<Rightarrow> string \<Rightarrow> string list" where
  "childrenOf m expected =
     filter (\<lambda>childName. map_option category (obj_get m childName) = Some expected) (obj_keys m)"

text \<open>
  \<^verbatim>\<open>item.category ? (item.category + " > " + parentName) : parentName\<close>
\<close>

definition expectedChildCategory :: "item \<Rightarrow> string \<Rightarrow> string" where
  "expectedChildCategory it parentName =
     (if category it \<noteq> [] then category it @ '' > '' @ parentName else parentName)"

text \<open>
  \<^verbatim>\<open>item.description = d\<close> for the object stored under the key: the entry changes in
  place.
\<close>

definition set_description :: "item obj \<Rightarrow> string \<Rightarrow> string \<Rightarrow> item obj" where
  "set_description m k d =
     map (\<lambda>(k', it). if k' = k then (k', it\<lparr>description := d\<rparr>) else (k', it)) m"

text \<open>
  The body of the outer \<^verbatim>\<open>Object.keys(metadata).forEach(function(parentName) { ... })\<close>.
  The key comes from \<^verbatim>\<open>Object.keys\<close>, so the lookup finds an item; the other branch is
  never taken.
\<close>

definition backfillStep :: "item obj \<Rightarrow> string \<Rightarrow> item obj" where
  "backfillStep m parentName =
     (case obj_get m parentName of
        None \<Rightarrow> m
      | Some it \<Rightarrow>
          if description it = [] \<or> js_trim (description it) = []
          then (let children = childrenOf m (expectedChildCategory it parentName)
                in if length children > 0
                   then set_description m parentName (''Entries: '' @ js_join children '', '')
                   else m)
          else m)"

text \<open>Step 4 of \<^verbatim>\<open>parseBodyContent\<close>; the keys are listed once, before the loop.\<close>

definition backfill :: "item obj \<Rightarrow> item obj" where
  "backfill m = foldl backfillStep m (obj_keys m)"

text \<open>
  \<^verbatim>\<open>parseBodyContent\<close> from step 2 on, given the \<^verbatim>\<open>lines\<close> that step 1 extracts from the
  host's paragraphs.
\<close>

definition parseBodyContent :: "lineObj list \<Rightarrow> item obj" where
  "parseBodyContent lines = backfill (parseLines lines)"

subsection \<open>getCurrentContext\<close>

text \<open>
  The document is reached through the host's element methods only. An element is a value
  of an arbitrary type \<open>'e\<close> and the host is the record of the methods that the source
  calls on it; \<open>getText\<close> stands for \<^verbatim>\<open>asParagraph().getText()\<close>,
  \<^verbatim>\<open>asListItem().getText()\<close> and \<^verbatim>\<open>asText().getText()\<close>. Nothing is assumed of the
  sibling and parent links: they may be cyclic.
\<close>

datatype ElementType = PARAGRAPH | LIST_ITEM | TEXT | OTHER_ELEMENT

record 'e host =
  getType :: "'e \<Rightarrow> ElementType"
  getText :: "'e \<Rightarrow> string"
  getParent :: "'e \<Rightarrow> 'e option"
  getPreviousSibling :: "'e \<Rightarrow> 'e option"
  getNextSibling :: "'e \<Rightarrow> 'e option"

text \<open>
  \<^verbatim>\<open>getBlockParent(element)\<close>: the loop follows \<^verbatim>\<open>getParent()\<close> with no bound, so it
  is a partial function; \<^term>\<open>None\<close> is a run that never returns, \<open>Some None\<close> is the
  result \<^verbatim>\<open>null\<close>.
\<close>

partial_function (option) getBlockParent :: "'e host \<Rightarrow> 'e option \<Rightarrow> 'e option option" where
  "getBlockParent h element =
     (case element of
        None \<Rightarrow> Some None
      | Some e \<Rightarrow>
          if getType h e = PARAGRAPH \<or> getType h e = LIST_ITEM then Some (Some e)
          else getBlockParent h (getParent h e))"

text \<open>\<^verbatim>\<open>getTextSafe(el)\<close>.\<close>

definition getTextSafe :: "'e host \<Rightarrow> 'e option \<Rightarrow> string" where
  "getTextSafe h el =
     (case el of
        None \<Rightarrow> []
      | Some e \<Rightarrow>
          if getType h e = PARAGRAPH then getText h e
          else if getType h e = LIST_ITEM then getText h e
          else [])"

text \<open>The loop that accumulates the selection's text into \<^verbatim>\<open>coreText\<close>.\<close>

fun selectionText :: "'e host \<Rightarrow> 'e list \<Rightarrow> string \<Rightarrow> string" where
  "selectionText h [] coreText = coreText"
| "selectionText h (element # rest) coreText =
     (if getType h element = PARAGRAPH then selectionText h rest (coreText @ getText h element @ '' '')
      else if getType h element = LIST_ITEM then selectionText h rest (coreText @ getText h element @ '' '')
      else if getType h element = TEXT then selectionText h rest (coreText @ getText h element @ '' '')
      else selectionText h rest coreText)"

text \<open>
  Step 1 of \<^verbatim>\<open>getCurrentContext\<close>: \<open>(coreText, startBlock, endBlock)\<close>. The selection is
  the list of the elements of \<^verbatim>\<open>selection.getRangeElements()\<close>, or \<^term>\<open>None\<close> for
  \<^verbatim>\<open>null\<close>; the cursor is \<^verbatim>\<open>cursor.getElement()\<close>, or \<^term>\<open>None\<close> for \<^verbatim>\<open>null\<close>.
\<close>

definition captureCore ::
  "'e host \<Rightarrow> 'e list option \<Rightarrow> 'e option \<Rightarrow> (string \<times> 'e option \<times> 'e option) option" where
  "captureCore h selection cursor =
     (case selection of
        Some elements \<Rightarrow>
          (if length elements > 0 then
             (case getBlockParent h (Some (elements ! 0)) of
                None \<Rightarrow> None
              | Some startBlock \<Rightarrow>
                  (case getBlockParent h (Some (elements ! (length elements - 1))) of
                     None \<Rightarrow> None
                   | Some endBlock \<Rightarrow> Some (selectionText h elements [], startBlock, endBlock)))
           else Some (selectionText h elements [], None, None))
      | None \<Rightarrow>
          (case cursor of
             Some ce \<Rightarrow>
               (case getBlockParent h (Some ce) of
                  None \<Rightarrow> None
                | Some startBlock \<Rightarrow>
                    Some (if startBlock \<noteq> None then getTextSafe h startBlock else [],
                          startBlock, startBlock))
           | None \<Rightarrow> Some ([], None, None)))"

text \<open>
  Step 2, the backward loop, with its variables \<^verbatim>\<open>curr\<close> (here \<open>cur\<close>), \<^verbatim>\<open>count\<close>, \<^verbatim>\<open>safety\<close> and
  \<^verbatim>\<open>prefix\<close>; the result is \<open>(prefix, count, safety)\<close> at the loop's exit.
\<close>

function lookBackwards ::
  "'e host \<Rightarrow> int \<Rightarrow> 'e \<Rightarrow> nat \<Rightarrow> nat \<Rightarrow> string \<Rightarrow> string \<times> nat \<times> nat" where
  "lookBackwards h limit cur count safety prefix =
     (if int count < limit \<and> safety < 100 then
        (case getPreviousSibling h cur of
           None \<Rightarrow> (prefix, count, safety)
         | Some cur' \<Rightarrow>
             (let txt = getTextSafe h (Some cur')
              in if length (js_trim txt) > 0
                 then lookBackwards h limit cur' (count + 1) (safety + 1) (txt @ '' '' @ prefix)
                 else lookBackwards h limit cur' count (safety + 1) prefix))
      else (prefix, count, safety))"
  by pat_completeness auto
termination
  by (relation "measure (\<lambda>(h, limit, cur, count, safety, prefix). 100 - safety)") auto

text \<open>Step 3, the forward loop.\<close>

function lookForwards ::
  "'e host \<Rightarrow> int \<Rightarrow> 'e \<Rightarrow> nat \<Rightarrow> nat \<Rightarrow> string \<Rightarrow> string \<times> nat \<times> nat" where
  "lookForwards h limit cur count safety suffix =
     (if int count < limit \<and> safety < 100 then
        (case getNextSibling h cur of
           None \<Rightarrow> (suffix, count, safety)
         | Some cur' \<Rightarrow>
             (let txt = getTextSafe h (Some cur')
              in if length (js_trim txt) > 0
                 then lookForwards h limit cur' (count + 1) (safety + 1) (suffix @ '' '' @ txt)
                 else lookForwards h limit cur' count (safety + 1) suffix))
      else (suffix, count, safety))"
  by pat_completeness auto
termination
  by (relation "measure (\<lambda>(h, limit, cur, count, safety, suffix). 100 - safety)") auto

text \<open>
  \<^verbatim>\<open>getCurrentContext(lookaround)\<close>, with the host, the selection and the cursor of the
  active document as arguments; \<open>limit\<close> is \<^verbatim>\<open>lookaround || 0\<close>. \<^term>\<open>None\<close> is a
  call that never returns.
\<close>

definition getCurrentContext ::
  "'e host \<Rightarrow> int \<Rightarrow> 'e list option \<Rightarrow> 'e option \<Rightarrow> string option" where
  "getCurrentContext h limit selection cursor =
     (case captureCore h selection cursor of
        None \<Rightarrow> None
      | Some (coreText, startBlock, endBlock) \<Rightarrow>
          (case startBlock of
             None \<Rightarrow> Some []
           | Some sb \<Rightarrow>
               (let (prefix, c1, s1) = lookBackwards h limit sb 0 0 [];
                    cur = (case endBlock of Some eb \<Rightarrow> eb | None \<Rightarrow> sb);
                    (suffix, c2, s2) = lookForwards h limit cur 0 0 []
                in Some (prefix @ '' '' @ coreText @ '' '' @ suffix))))"

section \<open>Functions used to state the properties\<close>

text \<open>
  The description and the start index of the property scan, as \<^verbatim>\<open>processBuffer\<close>
  computes them from the shifted buffer.
\<close>

definition descriptionOf :: "lineObj list \<Rightarrow> string" where
  "descriptionOf buf =
     (if length buf > 1 \<and> \<not> js_includes (ltext (buf ! 1)) CHR '':''
         \<and> \<not> startsWith (ltext (buf ! 1)) ''_''
      then ltext (buf ! 1) else [])"

definition startIndexOf :: "lineObj list \<Rightarrow> nat" where
  "startIndexOf buf = (if descriptionOf buf \<noteq> [] then 2 else 1)"

text \<open>The first image of a list of blocks that JavaScript takes for true.\<close>

fun firstImage :: "lineObj list \<Rightarrow> string option" where
  "firstImage [] = None"
| "firstImage (b # bs) = (if truthy (imageUrl b) then imageUrl b else firstImage bs)"

text \<open>The blocks up to and including the first one whose text starts with \<^verbatim>\<open>_\<close>.\<close>

fun uptoStop :: "lineObj list \<Rightarrow> lineObj list" where
  "uptoStop [] = []"
| "uptoStop (b # bs) = (if startsWith (ltext b) ''_'' then [b] else b # uptoStop bs)"

text \<open>
  The image of an entry as the code finds it: the first image among the blocks before the
  start index and the scanned blocks, the stop marker included.
\<close>

definition scannedImage :: "lineObj list \<Rightarrow> string option" where
  "scannedImage buf =
     firstImage (take (startIndexOf buf) buf @ uptoStop (drop (startIndexOf buf) buf))"

text \<open>
  The image of an entry in the words of the specification: the first image reference
  that is not \<^verbatim>\<open>null\<close> among the first block, the second block when it was consumed as
  the description, and the scanned blocks before the stop marker.
\<close>

fun firstNonNull :: "lineObj list \<Rightarrow> string option" where
  "firstNonNull [] = None"
| "firstNonNull (b # bs) = (if imageUrl b = None then firstNonNull bs else imageUrl b)"

definition specImage :: "lineObj list \<Rightarrow> string option" where
  "specImage buf =
     firstNonNull
       (take 1 buf @ (if descriptionOf buf = [] then [] else take 1 (drop 1 buf))
        @ takeWhile (\<lambda>b. \<not> startsWith (ltext b) ''_'') (drop (startIndexOf buf) buf))"

text \<open>Blocks for the examples: a normal line, a heading of level \<open>d\<close>, a line with an image.\<close>

definition normal :: "string \<Rightarrow> lineObj" where
  "normal t = \<lparr>ltext = t, style = ''NORMAL_TEXT'', imageUrl = None\<rparr>"


definition pictured :: "string \<Rightarrow> string \<Rightarrow> lineObj" where
  "pictured t u = \<lparr>ltext = t, style = ''NORMAL_TEXT'', imageUrl = Some u\<rparr>"

text \<open>The keys of a metadata object with the category stored under each.\<close>

definition categories :: "item obj \<Rightarrow> (string \<times> string) list" where
  "categories m = map (\<lambda>(k, it). (k, category it)) m"

text \<open>
  What the backfill pass makes of the item stored under \<open>k\<close>: the list of its children
  as the description when the description is blank and there are children, the item as
  it is otherwise.
\<close>

definition backfilled :: "item obj \<Rightarrow> string \<Rightarrow> item \<Rightarrow> item" where
  "backfilled m k it =
     (if js_trim (description it) = [] \<and> childrenOf m (expectedChildCategory it k) \<noteq> []
      then it\<lparr>description :=
                ''Entries: '' @ js_join (childrenOf m (expectedChildCategory it k)) '', ''\<rparr>
      else it)"

text \<open>
  The map of the specification's backfill example, and a map whose parent has a
  description of a space, a no-break space and a tab, and whose children have array-index
  names.
\<close>

definition exampleMap :: "item obj" where
  "exampleMap =
     [(''A'', \<lparr>description = [], properties = [], category = [], item_imageUrl = None\<rparr>),
      (''B'', \<lparr>description = ''d'', properties = [], category = ''A'', item_imageUrl = None\<rparr>),
      (''C'', \<lparr>description = [], properties = [], category = ''A'', item_imageUrl = None\<rparr>)]"

definition numberedMap :: "item obj" where
  "numberedMap =
     [(''P'', \<lparr>description = [CHR 0x20, CHR 0xA0, CHR 0x09], properties = [], category = [],
               item_imageUrl = None\<rparr>),
      (''b'', \<lparr>description = [], properties = [], category = ''P'', item_imageUrl = None\<rparr>),
      (''10'', \<lparr>description = [], properties = [], category = ''P'', item_imageUrl = None\<rparr>),
      (''9'', \<lparr>description = [], properties = [], category = ''P'', item_imageUrl = None\<rparr>)]"

text \<open>The first \<open>n\<close> elements reached from \<open>e\<close> by following a sibling link.\<close>

fun siblingChain :: "('e \<Rightarrow> 'e option) \<Rightarrow> 'e \<Rightarrow> nat \<Rightarrow> 'e list" where
  "siblingChain link e 0 = []"
| "siblingChain link e (Suc n) =
     (case link e of None \<Rightarrow> [] | Some e' \<Rightarrow> e' # siblingChain link e' n)"

text \<open>The walks' test of a sibling: \<^verbatim>\<open>txt.trim().length > 0\<close>.\<close>

definition hasContent :: "'e host \<Rightarrow> 'e \<Rightarrow> bool" where
  "hasContent h e = (length (js_trim (getTextSafe h (Some e))) > 0)"

text \<open>
  A document of paragraphs in a row for the examples: the elements are the positions,
  each the previous sibling of the next.
\<close>

definition paragraphs :: "string list \<Rightarrow> nat host" where
  "paragraphs txts =
     \<lparr>getType = (\<lambda>n. PARAGRAPH),
      getText = (\<lambda>n. if n < length txts then txts ! n else []),
      getParent = (\<lambda>n. None),
      getPreviousSibling = (\<lambda>n. if n = 0 then None else Some (n - 1)),
      getNextSibling = (\<lambda>n. if Suc n < length txts then Some (Suc n) else None)\<rparr>"

text \<open>A sibling chain that never ends, every sibling an empty paragraph.\<close>

definition endless :: "nat host" where
  "endless =
     \<lparr>getType = (\<lambda>n. PARAGRAPH),
      getText = (\<lambda>n. []),
      getParent = (\<lambda>n. None),
      getPreviousSibling = (\<lambda>n. Some (Suc n)),
      getNextSibling = (\<lambda>n. Some (Suc n))\<rparr>"

section \<open>Properties of processBuffer\<close>

subsection \<open>The leading blocks and the entry name\<close>

lemma shiftLeading_dropWhile:
  "shiftLeading buf = dropWhile (\<lambda>b. ltext b = [] \<and> \<not> truthy (imageUrl b)) buf"
  by (induction buf) simp_all

lemma processShifted_Nil: "processShifted md [] pathStr = md"
  by (simp add: processShifted_def)

lemma processShifted_noname:
  "ltext b = [] \<Longrightarrow> processShifted md (b # bs) pathStr = md"
  by (simp add: processShifted_def Let_def split: prod.splits)

lemma processShifted_named:
  assumes "ltext b \<noteq> []"
  shows "\<exists>it. processShifted md (b # bs) pathStr = obj_set md (ltext b) it
        \<and> category it = pathStr"
proof -
  have "\<exists>d pr f. processShifted md (b # bs) pathStr =
          obj_set md (ltext b)
            \<lparr>description = d, properties = pr, category = pathStr, item_imageUrl = f\<rparr>"
    unfolding processShifted_def Let_def case_prod_beta using assms by auto
  then obtain d pr f where "processShifted md (b # bs) pathStr =
          obj_set md (ltext b)
            \<lparr>description = d, properties = pr, category = pathStr, item_imageUrl = f\<rparr>"
    by blast
  moreover have "category
      \<lparr>description = d, properties = pr, category = pathStr, item_imageUrl = f\<rparr> = pathStr"
    by simp
  ultimately show ?thesis by blast
qed

text \<open>
  In the first copy of \<^verbatim>\<open>processBuffer\<close> the leading blocks with empty text and no image
  are dropped. When nothing is left, or when the first block left has the empty text,
  \<^verbatim>\<open>metadata\<close> is returned as it was; otherwise one item is assigned under the text of
  the first block left, with the path as its category.
\<close>

lemma processBuffer_entry_name:
  "(case dropWhile (\<lambda>b. ltext b = [] \<and> \<not> truthy (imageUrl b)) buf of
      [] \<Rightarrow> processBuffer md buf pathStr = md
    | b # rest \<Rightarrow>
        if ltext b = [] then processBuffer md buf pathStr = md
        else \<exists>it. processBuffer md buf pathStr = obj_set md (ltext b) it
               \<and> category it = pathStr)"
proof (cases "dropWhile (\<lambda>b. ltext b = [] \<and> \<not> truthy (imageUrl b)) buf")
  case Nil
  show ?thesis
    unfolding processBuffer_def shiftLeading_dropWhile Nil by (simp add: processShifted_Nil)
next
  case (Cons b rest)
  show ?thesis
    unfolding processBuffer_def shiftLeading_dropWhile Cons
    using processShifted_named [of b md rest pathStr]
    by (simp add: processShifted_noname)
qed

text \<open>
  C1. For every buffer flushed by the parser, the leading blocks whose text is empty and
  that carry no image are discarded first; if nothing remains, no entry is produced;
  otherwise the first remaining block's text is the entry name, and an empty name
  produces no entry.

  The first copy of \<^verbatim>\<open>processBuffer\<close> does so (\<open>processBuffer_entry_name\<close>). The second
  copy (lines 486--536) also discards a leading block that has empty text and carries an
  image: on an image-only block followed by the block \<^verbatim>\<open>N\<close> it stores an entry \<^verbatim>\<open>N\<close>,
  where the first copy, as the property says, keeps the image block as the first one,
  reads the empty name and stores nothing.
\<close>

theorem processBuffer2_image_first:
  "processBuffer2 []
     [\<lparr>ltext = [], style = ''NORMAL_TEXT'', imageUrl = Some ''u''\<rparr>,
      \<lparr>ltext = ''N'', style = ''NORMAL_TEXT'', imageUrl = None\<rparr>] ''p''
   = [(''N'', \<lparr>description = [], properties = [], category = ''p'', item_imageUrl = None\<rparr>)]
   \<and> processBuffer []
     [\<lparr>ltext = [], style = ''NORMAL_TEXT'', imageUrl = Some ''u''\<rparr>,
      \<lparr>ltext = ''N'', style = ''NORMAL_TEXT'', imageUrl = None\<rparr>] ''p'' = []"
  by (simp add: processBuffer2_def processBuffer_def processShifted_def obj_set_def)

subsection \<open>Property lines\<close>

lemma js_split_nonempty: "js_split s c \<noteq> []"
  by (induction s) (auto split: list.splits)

lemma js_split_before: "c \<notin> set k \<Longrightarrow> js_split (k @ c # v) c = k # js_split v c"
  by (induction k) (auto split: list.splits)

lemma js_join_split: "js_join (js_split v c) [c] = v"
proof (induction v)
  case Nil
  then show ?case by simp
next
  case (Cons x v)
  show ?case
  proof (cases "x = c")
    case True
    then show ?thesis using Cons js_split_nonempty [of v c]
      by (cases "js_split v c") auto
  next
    case False
    then show ?thesis using Cons js_split_nonempty [of v c]
      by (cases "js_split v c"; cases "tl (js_split v c)") auto
  qed
qed

lemma first_occurrence:
  assumes "c \<in> set s"
  shows "s = takeWhile (\<lambda>x. x \<noteq> c) s @ c # tl (dropWhile (\<lambda>x. x \<noteq> c) s)"
proof -
  have "dropWhile (\<lambda>x. x \<noteq> c) s \<noteq> []" using assms by (simp add: dropWhile_eq_Nil_conv)
  moreover have "hd (dropWhile (\<lambda>x. x \<noteq> c) s) = c"
    using assms hd_dropWhile [of "\<lambda>x. x \<noteq> c" s] calculation by auto
  ultimately have "dropWhile (\<lambda>x. x \<noteq> c) s = c # tl (dropWhile (\<lambda>x. x \<noteq> c) s)"
    by (cases "dropWhile (\<lambda>x. x \<noteq> c) s") auto
  then show ?thesis
    using takeWhile_dropWhile_id [of "\<lambda>x. x \<noteq> c" s] by metis
qed

text \<open>
  Splitting at every separator, taking the first part as the key and joining the other
  parts again is splitting at the first separator.
\<close>

lemma split_first:
  assumes "c \<in> set s"
  shows "hd (js_split s c) = takeWhile (\<lambda>x. x \<noteq> c) s"
    and "js_join (tl (js_split s c)) [c] = tl (dropWhile (\<lambda>x. x \<noteq> c) s)"
proof -
  let ?k = "takeWhile (\<lambda>x. x \<noteq> c) s" and ?v = "tl (dropWhile (\<lambda>x. x \<noteq> c) s)"
  have "c \<notin> set ?k" by (auto dest: set_takeWhileD)
  then have "js_split (?k @ c # ?v) c = ?k # js_split ?v c" by (rule js_split_before)
  then have eq: "js_split s c = ?k # js_split ?v c" using first_occurrence [OF assms] by simp
  show "hd (js_split s c) = ?k" by (simp add: eq)
  show "js_join (tl (js_split s c)) [c] = ?v" by (simp add: eq js_join_split)
qed

lemma obj_set_twice: "obj_set (obj_set props key v1) key v2 = obj_set props key v2"
  by (simp add: obj_set_def)

lemma obj_get_set: "key \<noteq> ''__proto__'' \<Longrightarrow> obj_get (obj_set props key v) key = Some v"
  by (simp add: obj_set_def obj_get_def update_conv')

text \<open>
  C6. A scanned line that contains \<^verbatim>\<open>:\<close> (and is not the stop marker) is split at its
  first \<^verbatim>\<open>:\<close> only: the key is the trimmed text before it, the value the trimmed text
  after it, further colons included. The pair is recorded only when both are non-empty;
  otherwise the properties stay as they were. Assigning a key a second time replaces the
  earlier value, and the value read back is the later one.
\<close>

theorem scanLines_property_line:
  assumes "js_includes (ltext b) CHR '':''" and "\<not> startsWith (ltext b) ''_''"
  shows "scanLines (b # bs) props found =
     (let key = js_trim (takeWhile (\<lambda>x. x \<noteq> CHR '':'') (ltext b));
          val = js_trim (tl (dropWhile (\<lambda>x. x \<noteq> CHR '':'') (ltext b)));
          found' = (if \<not> truthy found \<and> truthy (imageUrl b) then imageUrl b else found)
      in scanLines bs (if key \<noteq> [] \<and> val \<noteq> [] then obj_set props key val else props) found')
     \<and> obj_set (obj_set props k v1) k v2 = obj_set props k v2
     \<and> (k \<noteq> ''__proto__'' \<longrightarrow> obj_get (obj_set (obj_set props k v1) k v2) k = Some v2)"
proof -
  have c: "CHR '':'' \<in> set (ltext b)" using assms(1) by (simp add: js_includes_def)
  show ?thesis
    using assms split_first [OF c]
    by (simp add: Let_def obj_set_twice obj_get_set)
qed

text \<open>
  The line \<^verbatim>\<open>url: http://x:8080\<close> gives the key \<^verbatim>\<open>url\<close> and the value
  \<^verbatim>\<open>http://x:8080\<close>; in a buffer with the lines \<^verbatim>\<open>a: 1\<close>, \<^verbatim>\<open>b :2\<close>, \<^verbatim>\<open>:c\<close> and
  \<^verbatim>\<open>a:3:4\<close> the line with the empty key is skipped and the later \<^verbatim>\<open>a\<close> wins. A no-break
  space before the colon and a no-break space and a tab after the value are trimmed away.
\<close>

theorem scanLines_property_line_witness:
  "js_includes (ltext (normal ''url: http://x:8080'')) CHR '':''
   \<and> \<not> startsWith (ltext (normal ''url: http://x:8080'')) ''_''
   \<and> scanLines [normal ''url: http://x:8080''] [] None = ([(''url'', ''http://x:8080'')], None)
   \<and> scanLines [normal ''a: 1'', normal ''b :2'', normal '':c'', normal ''a:3:4''] [] None
     = ([(''a'', ''3:4''), (''b'', ''2'')], None)
   \<and> scanLines [normal ([CHR ''a'', CHR 0xA0] @ '': v'' @ [CHR 0xA0, CHR 0x09])] [] None
     = ([(''a'', ''v'')], None)
   \<and> obj_get (obj_set (obj_set [] ''a'' ''1'') ''a'' ''3:4'') ''a'' = Some ''3:4''"
  using scanLines_property_line [of "normal ''url: http://x:8080''" "[]" "[]" None
      "''a''" "''1''" "''3:4''"]
  by (simp add: normal_def js_includes_def startsWith_def js_trim_def is_ws_def obj_set_def
      obj_get_def Let_def)

subsection \<open>The stop marker\<close>

lemma scanLines_stop:
  "startsWith (ltext m) ''_'' \<Longrightarrow>
     scanLines (pre @ m # post) props found = scanLines (pre @ [m]) props found"
  by (induction pre arbitrary: props found) (simp_all add: Let_def)

lemma scanLines_marker_last:
  "startsWith (ltext m) ''_'' \<Longrightarrow>
     fst (scanLines (pre @ [m]) props found) = fst (scanLines pre props found)"
  by (induction pre arbitrary: props found) (simp_all add: Let_def)

lemma shiftLeading_append:
  "shiftLeading pre \<noteq> [] \<Longrightarrow> shiftLeading (pre @ xs) = shiftLeading pre @ xs"
  by (induction pre) auto

lemma processShifted_stop:
  assumes "startsWith (ltext m) ''_''"
  shows "processShifted md (b # rest @ m # post) p = processShifted md (b # rest @ [m]) p"
proof (cases rest)
  case Nil
  then show ?thesis
    using assms scanLines_stop [OF assms, of "[]" post]
    by (simp add: processShifted_def Let_def)
next
  case (Cons r rs)
  then show ?thesis
    using scanLines_stop [OF assms, of "r # rs" post] scanLines_stop [OF assms, of "rs" post]
    by (simp add: processShifted_def Let_def)
qed

text \<open>
  C5. Once the property scan reaches a line that starts with \<^verbatim>\<open>_\<close>, it halts: the
  properties are those collected from the lines before the marker, whatever follows it.
  For a buffer whose first kept block comes before the marker (so that the marker is a
  scanned line and not the name), the whole call does not depend on the lines after the
  marker.
\<close>

theorem processBuffer_stop_marker:
  assumes "startsWith (ltext m) ''_''"
  shows "fst (scanLines (pre @ m # post) props found) = fst (scanLines pre props found)
       \<and> scanLines (pre @ m # post) props found = scanLines (pre @ [m]) props found
       \<and> (shiftLeading pre \<noteq> [] \<longrightarrow>
            processBuffer md (pre @ m # post) p = processBuffer md (pre @ [m]) p)"
proof -
  have "processBuffer md (pre @ m # post) p = processBuffer md (pre @ [m]) p"
    if ne: "shiftLeading pre \<noteq> []"
  proof -
    obtain b rest where br: "shiftLeading pre = b # rest"
      using ne by (cases "shiftLeading pre") auto
    show ?thesis
      using processShifted_stop [OF assms, of md b rest post p]
      by (simp add: processBuffer_def shiftLeading_append [OF ne] br)
  qed
  then show ?thesis
    using scanLines_stop [OF assms, of pre post props found]
      scanLines_marker_last [OF assms, of pre props found]
    by simp
qed

text \<open>
  The buffer \<^verbatim>\<open>Name\<close>, \<^verbatim>\<open>k: v\<close>, \<^verbatim>\<open>_\<close>, \<^verbatim>\<open>x: y\<close>: only \<^verbatim>\<open>k\<close> is recorded.
\<close>

theorem processBuffer_stop_marker_witness:
  "startsWith (ltext (normal ''_'')) ''_''
   \<and> shiftLeading [normal ''Name'', normal ''k: v''] \<noteq> []
   \<and> processBuffer [] ([normal ''Name'', normal ''k: v''] @ normal ''_'' # [normal ''x: y'']) ''p''
       = processBuffer [] ([normal ''Name'', normal ''k: v''] @ [normal ''_'']) ''p''
   \<and> processBuffer [] [normal ''Name'', normal ''k: v'', normal ''_'', normal ''x: y''] ''p''
       = [(''Name'', \<lparr>description = [], properties = [(''k'', ''v'')], category = ''p'',
                      item_imageUrl = None\<rparr>)]"
  using processBuffer_stop_marker [of "normal ''_''" "[normal ''Name'', normal ''k: v'']"
      "[normal ''x: y'']" "[]" None "[]" "''p''"]
  by (simp add: normal_def processBuffer_def processShifted_def js_includes_def startsWith_def
      js_trim_def is_ws_def obj_set_def Let_def)

subsection \<open>The image of an entry\<close>

lemma firstImage_cases: "firstImage bs = None \<or> truthy (firstImage bs)"
  by (induction bs) auto

lemma firstImage_append:
  "firstImage (xs @ ys) = (if truthy (firstImage xs) then firstImage xs else firstImage ys)"
  by (induction xs) auto

lemma scanLines_image:
  "found = None \<or> truthy found \<Longrightarrow>
     snd (scanLines bs props found) = (if truthy found then found else firstImage (uptoStop bs))"
  by (induction bs arbitrary: props found) (auto simp: Let_def)

lemma processShifted_item:
  assumes "ltext b \<noteq> []"
  shows "processShifted md (b # rest) p =
     obj_set md (ltext b)
       \<lparr>description = descriptionOf (b # rest),
        properties = fst (scanLines (drop (startIndexOf (b # rest)) (b # rest)) []
                            (firstImage (take 2 (b # rest)))),
        category = p,
        item_imageUrl = snd (scanLines (drop (startIndexOf (b # rest)) (b # rest)) []
                               (firstImage (take 2 (b # rest))))\<rparr>"
proof (cases rest)
  case Nil
  then show ?thesis using assms
    by (simp add: processShifted_def descriptionOf_def startIndexOf_def Let_def case_prod_beta)
next
  case (Cons r rs)
  then show ?thesis using assms
    by (simp add: processShifted_def descriptionOf_def startIndexOf_def Let_def case_prod_beta)
qed

lemma uptoStop_Cons: "\<exists>ys. uptoStop (r # rs) = r # ys"
  by simp

lemma scannedImage_eq:
  "snd (scanLines (drop (startIndexOf (b # rest)) (b # rest)) props
          (firstImage (take 2 (b # rest)))) = scannedImage (b # rest)"
proof -
  let ?buf = "b # rest" and ?si = "startIndexOf (b # rest)"
  have scan: "snd (scanLines (drop ?si ?buf) props (firstImage (take 2 ?buf))) =
      (if truthy (firstImage (take 2 ?buf)) then firstImage (take 2 ?buf)
       else firstImage (uptoStop (drop ?si ?buf)))"
    using firstImage_cases [of "take 2 ?buf"] by (rule scanLines_image)
  have si: "?si = 1 \<or> ?si = 2" by (simp add: startIndexOf_def)
  show ?thesis
  proof (cases "?si = 2")
    case True
    have "scannedImage ?buf = firstImage (take 2 ?buf @ uptoStop (drop ?si ?buf))"
      by (simp only: scannedImage_def True)
    also have "\<dots> = (if truthy (firstImage (take 2 ?buf)) then firstImage (take 2 ?buf)
       else firstImage (uptoStop (drop ?si ?buf)))"
      by (rule firstImage_append)
    finally show ?thesis using scan by (simp only:)
  next
    case False
    then have one: "?si = 1" using si by simp
    show ?thesis
    proof (cases rest)
      case Nil
      have "snd (scanLines (drop ?si ?buf) props (firstImage (take 2 ?buf))) = firstImage [b]"
        using scan [unfolded one] unfolding one by (simp add: Nil)
      moreover have "scannedImage ?buf = firstImage [b]"
        unfolding scannedImage_def one by (simp add: Nil)
      ultimately show ?thesis by simp
    next
      case (Cons r rs)
      obtain ys where ys: "uptoStop (r # rs) = r # ys" using uptoStop_Cons by blast
      have "snd (scanLines (drop ?si ?buf) props (firstImage (take 2 ?buf))) =
          (if truthy (firstImage (take 2 ?buf)) then firstImage (take 2 ?buf)
           else firstImage (uptoStop (drop 1 ?buf)))"
        using scan [unfolded one] unfolding one .
      also have "\<dots> = firstImage (b # r # ys)"
        using ys by (simp add: Cons)
      finally have "snd (scanLines (drop ?si ?buf) props (firstImage (take 2 ?buf))) =
          firstImage (b # r # ys)" .
      moreover have "scannedImage ?buf = firstImage (b # r # ys)"
        unfolding scannedImage_def one using ys by (simp add: Cons)
      ultimately show ?thesis by simp
    qed
  qed
qed

text \<open>
  C4. The specification takes the image from the first block, then the second block when
  it was consumed as the description, then the scanned blocks, and says that a block
  whose text starts with \<^verbatim>\<open>_\<close> stops the scan and is not itself checked for an image
  (\<open>specImage\<close>). In the loop the image check stands before the \<^verbatim>\<open>break\<close>, so the stop
  marker's own image is found: for the buffer \<^verbatim>\<open>N\<close>, \<^verbatim>\<open>d\<close>, \<^verbatim>\<open>_x\<close> with an image on the
  last block, the entry gets that image; so it does for the buffer \<^verbatim>\<open>N\<close>, \<^verbatim>\<open>_x\<close>, where
  the marker is the second block.
\<close>

theorem processBuffer_image_counterexample:
  "processBuffer [] [normal ''N'', normal ''d'', pictured ''_x'' ''u''] ''p''
     = [(''N'', \<lparr>description = ''d'', properties = [], category = ''p'',
                  item_imageUrl = Some ''u''\<rparr>)]
   \<and> specImage (shiftLeading [normal ''N'', normal ''d'', pictured ''_x'' ''u'']) = None
   \<and> processBuffer [] [normal ''N'', pictured ''_x'' ''u''] ''p''
     = [(''N'', \<lparr>description = [], properties = [], category = ''p'',
                  item_imageUrl = Some ''u''\<rparr>)]
   \<and> specImage (shiftLeading [normal ''N'', pictured ''_x'' ''u'']) = None"
  by (simp add: normal_def pictured_def processBuffer_def processShifted_def specImage_def
      descriptionOf_def startIndexOf_def js_includes_def startsWith_def obj_set_def Let_def)

text \<open>
  C4, as the code has it. For every buffer that yields an entry, the entry's image is the
  first image reference that is neither \<^verbatim>\<open>null\<close> nor empty among the first block, the
  second block when it is the description, and the scanned blocks in order up to and
  including the first block whose text starts with \<^verbatim>\<open>_\<close>; no block after that one is
  looked at.
\<close>

theorem processBuffer_image:
  assumes "shiftLeading buf = b # rest" and "ltext b \<noteq> []"
  shows "\<exists>it. processBuffer md buf p = obj_set md (ltext b) it
           \<and> item_imageUrl it = scannedImage (shiftLeading buf)"
proof -
  define it where "it =
       \<lparr>description = descriptionOf (b # rest),
        properties = fst (scanLines (drop (startIndexOf (b # rest)) (b # rest)) []
                            (firstImage (take 2 (b # rest)))),
        category = p,
        item_imageUrl = snd (scanLines (drop (startIndexOf (b # rest)) (b # rest)) []
                               (firstImage (take 2 (b # rest))))\<rparr>"
  have "processBuffer md buf p = obj_set md (ltext b) it"
    unfolding it_def processBuffer_def assms(1) by (rule processShifted_item [OF assms(2)])
  moreover have "item_imageUrl it = scannedImage (shiftLeading buf)"
    unfolding it_def assms(1) using scannedImage_eq [of b rest "[]"] by simp
  ultimately show ?thesis by blast
qed

text \<open>
  A buffer with a padding block, the name, a description, a property line whose image
  reference is empty, a stop marker with an image and a later block with an image: the
  stop marker's image is the entry's.
\<close>

theorem processBuffer_image_witness:
  "shiftLeading [normal [], normal ''N'', normal ''d'', pictured ''k: v'' [], pictured ''_x'' ''u'', pictured ''y'' ''w'']
      = normal ''N'' # [normal ''d'', pictured ''k: v'' [], pictured ''_x'' ''u'', pictured ''y'' ''w'']
   \<and> ltext (normal ''N'') \<noteq> []
   \<and> scannedImage (shiftLeading [normal [], normal ''N'', normal ''d'', pictured ''k: v'' [], pictured ''_x'' ''u'', pictured ''y'' ''w'']) = Some ''u''
   \<and> processBuffer [] [normal [], normal ''N'', normal ''d'', pictured ''k: v'' [], pictured ''_x'' ''u'', pictured ''y'' ''w''] ''p''
      = [(''N'', \<lparr>description = ''d'', properties = [(''k'', ''v'')], category = ''p'',
                  item_imageUrl = Some ''u''\<rparr>)]"
  using processBuffer_image [of "[normal [], normal ''N'', normal ''d'', pictured ''k: v'' [], pictured ''_x'' ''u'', pictured ''y'' ''w'']"
      "normal ''N''" "[normal ''d'', pictured ''k: v'' [], pictured ''_x'' ''u'', pictured ''y'' ''w'']" "[]" "''p''"]
  by (simp add: normal_def pictured_def processBuffer_def processShifted_def scannedImage_def
      descriptionOf_def startIndexOf_def js_includes_def startsWith_def obj_set_def Let_def
      js_trim_def is_ws_def)

section \<open>Properties of the line loop\<close>

lemma flush_fields [simp]:
  "headingStack (flush s) = headingStack s"
  "currentPath (flush s) = currentPath s"
  "buffer (flush s) = []"
  by (simp_all add: flush_def)






lemma step_boundary:
  assumes "headingMatch (style x) \<noteq> None \<or> (ltext x = [] \<and> \<not> truthy (imageUrl x))"
  shows "metadata (step s x) = metadata (flush s)"
  using assms by (auto simp: step_def Let_def split: option.splits)













section \<open>Properties of the backfill pass\<close>

lemma js_trim_Nil_iff: "js_trim s = [] \<longleftrightarrow> (\<forall>c\<in>set s. is_ws c)"
proof
  assume "js_trim s = []"
  then have all: "\<forall>x\<in>set (dropWhile is_ws s). is_ws x"
    by (simp add: js_trim_def dropWhile_eq_Nil_conv)
  have "dropWhile is_ws s = []"
  proof (rule ccontr)
    assume ne: "dropWhile is_ws s \<noteq> []"
    then have "\<not> is_ws (hd (dropWhile is_ws s))" by (rule hd_dropWhile)
    moreover have "hd (dropWhile is_ws s) \<in> set (dropWhile is_ws s)" using ne by simp
    ultimately show False using all by blast
  qed
  then show "\<forall>c\<in>set s. is_ws c" by (simp add: dropWhile_eq_Nil_conv)
next
  assume "\<forall>c\<in>set s. is_ws c"
  then have "dropWhile is_ws s = []" by (simp add: dropWhile_eq_Nil_conv)
  then have "js_trim s = rev (dropWhile is_ws (rev []))" by (simp only: js_trim_def)
  then show "js_trim s = []" by simp
qed

lemma js_trim_empty [simp]: "js_trim [] = []"
  by (simp add: js_trim_def)

lemma obj_keys_cong: "map fst m = map fst m' \<Longrightarrow> obj_keys m = obj_keys m'"
  by (simp add: obj_keys_def)

lemma set_obj_keys [simp]: "set (obj_keys m) = fst ` set m"
  by (auto simp: obj_keys_def Let_def)

lemma distinct_obj_keys: "distinct (map fst m) \<Longrightarrow> distinct (obj_keys m)"
  by (auto simp: obj_keys_def Let_def)

lemma set_description_keys [simp]: "map fst (set_description m k d) = map fst m"
  by (induction m) (auto simp: set_description_def)

lemma set_description_frame [simp]:
  "map (\<lambda>(k, it). (k, properties it, category it, item_imageUrl it)) (set_description m k d)
     = map (\<lambda>(k, it). (k, properties it, category it, item_imageUrl it)) m"
  by (induction m) (auto simp: set_description_def)

lemma backfillStep_frame:
  "map (\<lambda>(k, it). (k, properties it, category it, item_imageUrl it)) (backfillStep m k)
     = map (\<lambda>(k, it). (k, properties it, category it, item_imageUrl it)) m"
  by (simp add: backfillStep_def Let_def split: option.splits)

lemma foldl_backfillStep_frame:
  "map (\<lambda>(k, it). (k, properties it, category it, item_imageUrl it)) (foldl backfillStep m ks)
     = map (\<lambda>(k, it). (k, properties it, category it, item_imageUrl it)) m"
  by (induction ks arbitrary: m) (simp_all add: backfillStep_frame)

text \<open>
  C9. The backfill pass changes descriptions only: the keys of the map, in their order,
  and under each key the properties, the category and the image are the same before and
  after the pass; no entry is added and none is removed.
\<close>

theorem backfill_frame:
  "map (\<lambda>(k, it). (k, properties it, category it, item_imageUrl it)) (backfill m)
     = map (\<lambda>(k, it). (k, properties it, category it, item_imageUrl it)) m
   \<and> map fst (backfill m) = map fst m"
proof -
  have f: "map (\<lambda>(k, it). (k, properties it, category it, item_imageUrl it)) (backfill m)
     = map (\<lambda>(k, it). (k, properties it, category it, item_imageUrl it)) m"
    unfolding backfill_def by (rule foldl_backfillStep_frame)
  have "map fst (map (\<lambda>(k, it). (k, properties it, category it, item_imageUrl it)) (backfill m))
      = map fst (map (\<lambda>(k, it). (k, properties it, category it, item_imageUrl it)) m)"
    by (simp only: f)
  then have "map fst (backfill m) = map fst m"
    by (simp add: case_prod_beta comp_def)
  then show ?thesis using f by simp
qed

lemma categories_keys: "map fst (categories m) = map fst m"
  by (induction m) (auto simp: categories_def)

lemma categories_lookup: "map_of (categories m) c = map_option category (map_of m c)"
  by (induction m) (auto simp: categories_def)

lemma childrenOf_cong:
  assumes "categories m = categories m'"
  shows "childrenOf m e = childrenOf m' e"
proof -
  have "map fst m = map fst m'" using assms categories_keys by metis
  then have k: "obj_keys m = obj_keys m'" by (rule obj_keys_cong)
  have "map_option category (obj_get m c) = map_option category (obj_get m' c)" for c
    using assms categories_lookup [of m c] categories_lookup [of m' c] by (simp add: obj_get_def)
  then show ?thesis by (simp add: childrenOf_def k)
qed

lemma backfilled_cong:
  "categories m = categories m' \<Longrightarrow> backfilled m k it = backfilled m' k it"
  by (simp add: backfilled_def childrenOf_cong [of m m'])

lemma set_description_categories [simp]: "categories (set_description m k d) = categories m"
  by (induction m) (auto simp: set_description_def categories_def)

lemma backfillStep_categories [simp]: "categories (backfillStep m k) = categories m"
  by (simp add: backfillStep_def Let_def split: option.splits)

lemma backfillStep_keys [simp]: "map fst (backfillStep m k) = map fst m"
  by (simp add: backfillStep_def Let_def split: option.splits)

lemma backfillStep_eq:
  assumes "distinct (map fst m)"
  shows "backfillStep m k =
     map (\<lambda>(k', it). if k' = k then (k', backfilled m k it) else (k', it)) m"
proof (cases "obj_get m k")
  case None
  then have "k \<notin> fst ` set m" by (simp add: obj_get_def map_of_eq_None_iff)
  then have "map (\<lambda>(k', it). if k' = k then (k', backfilled m k it) else (k', it)) m = m"
    by (intro map_idI) force
  then show ?thesis using None by (simp add: backfillStep_def)
next
  case (Some it)
  then have mem: "(k, it) \<in> set m" by (simp add: obj_get_def map_of_SomeD)
  have uniq: "it' = it" if "(k, it') \<in> set m" for it'
    using assms mem that by (meson eq_key_imp_eq_value)
  show ?thesis
  proof (cases "js_trim (description it) = [] \<and> childrenOf m (expectedChildCategory it k) \<noteq> []")
    case True
    have "set_description m k (''Entries: '' @ js_join (childrenOf m (expectedChildCategory it k)) '', '')
        = map (\<lambda>(k', it). if k' = k then (k', backfilled m k it) else (k', it)) m"
      unfolding set_description_def using True uniq
      by (intro map_cong) (auto simp: backfilled_def)
    then show ?thesis using Some True by (auto simp: backfillStep_def Let_def)
  next
    case False
    have "map (\<lambda>(k', it). if k' = k then (k', backfilled m k it) else (k', it)) m = m"
      using False uniq by (intro map_idI) (auto simp: backfilled_def)
    moreover have "backfillStep m k = m"
      using Some False by (auto simp: backfillStep_def Let_def js_trim_Nil_iff)
    ultimately show ?thesis by simp
  qed
qed

lemma foldl_backfillStep:
  assumes "distinct (map fst m)" and "distinct ks" and "categories m = categories m0"
  shows "foldl backfillStep m ks =
     map (\<lambda>(k, it). if k \<in> set ks then (k, backfilled m0 k it) else (k, it)) m"
  using assms
proof (induction ks arbitrary: m)
  case Nil
  then show ?case by (simp add: case_prod_beta)
next
  case (Cons k ks)
  let ?m1 = "backfillStep m k"
  have "backfilled m k it = backfilled m0 k it" for it
    using Cons.prems(3) by (rule backfilled_cong)
  then have m1: "?m1 = map (\<lambda>(k', it). if k' = k then (k', backfilled m0 k it) else (k', it)) m"
    using backfillStep_eq [OF Cons.prems(1), of k] by (simp only:)
  have "foldl backfillStep ?m1 ks =
      map (\<lambda>(k, it). if k \<in> set ks then (k, backfilled m0 k it) else (k, it)) ?m1"
    using Cons.prems by (intro Cons.IH) simp_all
  also have "\<dots> = map (\<lambda>(k', it). if k' \<in> set (k # ks) then (k', backfilled m0 k' it) else (k', it)) m"
    unfolding m1 using Cons.prems(2) by (auto simp: case_prod_beta)
  finally show ?case by simp
qed

lemma backfill_map:
  assumes "distinct (map fst m)"
  shows "backfill m = map (\<lambda>(k, it). (k, backfilled m k it)) m"
proof -
  have "backfill m = map (\<lambda>(k, it). if k \<in> set (obj_keys m) then (k, backfilled m k it) else (k, it)) m"
    unfolding backfill_def using assms distinct_obj_keys [OF assms]
    by (intro foldl_backfillStep) simp_all
  also have "\<dots> = map (\<lambda>(k, it). (k, backfilled m k it)) m"
    by (intro map_cong) (auto simp: rev_image_eqI)
  finally show ?thesis .
qed

lemma backfill_keys: "map fst (backfill m) = map fst m"
proof -
  have "map fst (foldl backfillStep m ks) = map fst m" for ks
    by (induction ks arbitrary: m) simp_all
  then show ?thesis by (simp add: backfill_def)
qed

lemma backfill_categories: "categories (backfill m) = categories m"
proof -
  have "categories (foldl backfillStep m ks) = categories m" for ks
    by (induction ks arbitrary: m) simp_all
  then show ?thesis by (simp add: backfill_def)
qed

lemma js_trim_E: "js_trim (CHR ''E'' # x) \<noteq> []"
  by (simp add: js_trim_Nil_iff is_ws_def)

lemma backfilled_idem: "backfilled m k (backfilled m k it) = backfilled m k it"
  by (simp add: backfilled_def js_trim_E)

text \<open>The examples, evaluated.\<close>

lemma obj_keys_exampleMap: "obj_keys exampleMap = [''A'', ''B'', ''C'']"
  by (simp add: exampleMap_def obj_keys_def is_array_index_def is_digit_def)

lemma backfill_exampleMap:
  "backfill exampleMap =
     [(''A'', \<lparr>description = ''Entries: B, C'', properties = [], category = [],
               item_imageUrl = None\<rparr>),
      (''B'', \<lparr>description = ''d'', properties = [], category = ''A'', item_imageUrl = None\<rparr>),
      (''C'', \<lparr>description = [], properties = [], category = ''A'', item_imageUrl = None\<rparr>)]"
  unfolding backfill_def obj_keys_exampleMap
  by (simp add: exampleMap_def backfillStep_def childrenOf_def obj_keys_def is_array_index_def
      is_digit_def obj_get_def expectedChildCategory_def set_description_def js_trim_def is_ws_def)

lemma obj_keys_numberedMap: "obj_keys numberedMap = [''9'', ''10'', ''P'', ''b'']"
  by (simp add: numberedMap_def obj_keys_def is_array_index_def is_digit_def dec_val_def
      digit_val_def)

lemma backfill_numberedMap:
  "backfill numberedMap =
     [(''P'', \<lparr>description = ''Entries: 9, 10, b'', properties = [], category = [],
               item_imageUrl = None\<rparr>),
      (''b'', \<lparr>description = [], properties = [], category = ''P'', item_imageUrl = None\<rparr>),
      (''10'', \<lparr>description = [], properties = [], category = ''P'', item_imageUrl = None\<rparr>),
      (''9'', \<lparr>description = [], properties = [], category = ''P'', item_imageUrl = None\<rparr>)]"
  unfolding backfill_def obj_keys_numberedMap
  by (simp add: numberedMap_def backfillStep_def childrenOf_def obj_keys_def is_array_index_def
      is_digit_def dec_val_def digit_val_def obj_get_def expectedChildCategory_def
      set_description_def js_trim_def is_ws_def)

text \<open>The frame property on the example map.\<close>

theorem backfill_frame_witness:
  "map (\<lambda>(k, it). (k, properties it, category it, item_imageUrl it)) (backfill exampleMap)
     = [(''A'', [], [], None), (''B'', [], ''A'', None), (''C'', [], ''A'', None)]
   \<and> map fst (backfill exampleMap) = [''A'', ''B'', ''C'']"
  using backfill_frame [of exampleMap] by (simp add: exampleMap_def)

text \<open>A second pass changes nothing on a map with distinct keys.\<close>

lemma backfill_twice:
  assumes "distinct (map fst m)"
  shows "backfill (backfill m) = backfill m"
proof -
  have d: "distinct (map fst (backfill m))" using assms by (simp add: backfill_keys)
  have "backfill (backfill m) = map (\<lambda>(k, it). (k, backfilled (backfill m) k it)) (backfill m)"
    using d by (rule backfill_map)
  also have "\<dots> = map (\<lambda>(k, it). (k, backfilled m k it)) (backfill m)"
    using backfilled_cong [OF backfill_categories [of m]] by simp
  also have "\<dots> = map (\<lambda>(k, it). (k, backfilled m k it)) (map (\<lambda>(k, it). (k, backfilled m k it)) m)"
    using backfill_map [OF assms] by simp
  also have "\<dots> = map (\<lambda>(k, it). (k, backfilled m k it)) m"
    by (simp add: case_prod_beta backfilled_idem)
  also have "\<dots> = backfill m" using backfill_map [OF assms] by simp
  finally show ?thesis .
qed

text \<open>
  C7. The backfill pass is idempotent: on a metadata object (its keys are distinct), a
  second pass gives the map that the first pass gave. A description written by the first
  pass starts with \<^verbatim>\<open>Entries\<close>, so it is not blank and the second pass leaves it; the
  children of an entry depend on the keys and categories only, which the pass keeps.
\<close>

theorem backfill_idempotent:
  assumes "distinct (map fst m)"
  shows "backfill (backfill m) = backfill m"
  using assms by (rule backfill_twice)

theorem backfill_idempotent_witness:
  "distinct (map fst exampleMap)
   \<and> backfill (backfill exampleMap) = backfill exampleMap
   \<and> backfill (backfill exampleMap) =
     [(''A'', \<lparr>description = ''Entries: B, C'', properties = [], category = [],
               item_imageUrl = None\<rparr>),
      (''B'', \<lparr>description = ''d'', properties = [], category = ''A'', item_imageUrl = None\<rparr>),
      (''C'', \<lparr>description = [], properties = [], category = ''A'', item_imageUrl = None\<rparr>)]"
proof -
  have d: "distinct (map fst exampleMap)" by (simp add: exampleMap_def)
  show ?thesis
    using d backfill_idempotent [OF d] by (simp add: backfill_exampleMap)
qed

text \<open>
  The parser stores no entry under the empty name and every key once, so its result
  meets the conditions under which the backfill pass is described below.
\<close>

lemma obj_set_wf:
  assumes "distinct (map fst m)" and "[] \<notin> fst ` set m" and "k \<noteq> []"
  shows "distinct (map fst (obj_set m k v)) \<and> [] \<notin> fst ` set (obj_set m k v)"
  using assms by (auto simp: obj_set_def distinct_update dom_update)

lemma processShifted_wf:
  assumes "distinct (map fst m)" and "[] \<notin> fst ` set m"
  shows "distinct (map fst (processShifted m buf p)) \<and> [] \<notin> fst ` set (processShifted m buf p)"
proof (cases buf)
  case Nil
  then show ?thesis using assms by (simp add: processShifted_Nil)
next
  case (Cons b bs)
  show ?thesis
  proof (cases "ltext b = []")
    case True
    then show ?thesis using assms Cons by (simp add: processShifted_noname)
  next
    case False
    then obtain it where "processShifted m (b # bs) p = obj_set m (ltext b) it"
      using processShifted_named [of b m bs p] by blast
    then show ?thesis using obj_set_wf [OF assms False] Cons by simp
  qed
qed

lemma step_wf:
  assumes "distinct (map fst (metadata s))" and "[] \<notin> fst ` set (metadata s)"
  shows "distinct (map fst (metadata (step s x))) \<and> [] \<notin> fst ` set (metadata (step s x))"
proof -
  have f: "distinct (map fst (metadata (flush s))) \<and> [] \<notin> fst ` set (metadata (flush s))"
    using assms processShifted_wf [OF assms] by (simp add: flush_def processBuffer_def)
  have "metadata (step s x) = metadata (flush s) \<or> metadata (step s x) = metadata s"
    by (auto simp: step_def Let_def split: option.splits)
  then show ?thesis using f assms by auto
qed

lemma foldl_step_wf:
  assumes "distinct (map fst (metadata s))" and "[] \<notin> fst ` set (metadata s)"
  shows "distinct (map fst (metadata (foldl step s xs)))
       \<and> [] \<notin> fst ` set (metadata (foldl step s xs))"
  using assms
proof (induction xs arbitrary: s)
  case Nil
  then show ?case by simp
next
  case (Cons x xs)
  then show ?case using step_wf [of s x] by simp
qed

lemma parseLines_wf:
  "distinct (map fst (parseLines lines)) \<and> [] \<notin> fst ` set (parseLines lines)"
proof -
  let ?s = "foldl step init_state lines"
  have s: "distinct (map fst (metadata ?s)) \<and> [] \<notin> fst ` set (metadata ?s)"
    by (rule foldl_step_wf) (simp_all add: init_state_def)
  then show ?thesis
    using processShifted_wf [of "metadata ?s"]
    by (simp add: parseLines_def flush_def processBuffer_def)
qed

text \<open>The result of \<^verbatim>\<open>parseBodyContent\<close> is a fixed point of the backfill pass.\<close>

lemma parseBodyContent_backfill: "backfill (parseBodyContent lines) = parseBodyContent lines"
  using parseLines_wf [of lines] by (simp add: parseBodyContent_def backfill_twice)

lemma not_own_child:
  assumes "k \<noteq> []"
  shows "category it \<noteq> expectedChildCategory it k"
proof
  assume eq: "category it = expectedChildCategory it k"
  show False
  proof (cases "category it = []")
    case True
    then have "expectedChildCategory it k = k" by (simp add: expectedChildCategory_def)
    with eq True have "k = []" by metis
    then show ?thesis using assms by simp
  next
    case False
    then have "expectedChildCategory it k = category it @ ('' > '' @ k)"
      by (simp add: expectedChildCategory_def)
    with eq have "category it = category it @ ('' > '' @ k)" by metis
    then have "'' > '' @ k = []" by (simp only: self_append_conv)
    then show ?thesis by simp
  qed
qed

text \<open>
  C3. In a metadata object with distinct, non-empty keys, let \<open>it\<close> be the entry stored
  under \<open>k\<close>, and let the children be the other keys, in \<^verbatim>\<open>Object.keys\<close> order, whose
  entry's category equals the expected child category of \<open>k\<close> (its category, \<^verbatim>\<open> > \<close> and
  its name, or the name alone when its category is empty). After the pass the entry under
  \<open>k\<close> is \<open>it\<close> with the description \<^verbatim>\<open>Entries: \<close> followed by the children joined with
  \<^verbatim>\<open>, \<close> when the description of \<open>it\<close> was empty or white space only (every character
  of it is one that \<^verbatim>\<open>trim\<close> strips) and there is a child; otherwise the entry is \<open>it\<close>
  unchanged.
\<close>

theorem backfill_description:
  assumes "distinct (map fst m)" and "(k, it) \<in> set m" and "k \<noteq> []"
  shows "obj_get (backfill m) k =
     Some (it\<lparr>description :=
       (let others = filter (\<lambda>c. c \<noteq> k \<and>
                map_option category (obj_get m c) = Some (expectedChildCategory it k)) (obj_keys m)
        in if list_all is_ws (description it) \<and> others \<noteq> []
           then ''Entries: '' @ js_join others '', '' else description it)\<rparr>)"
proof -
  let ?e = "expectedChildCategory it k"
  have get: "obj_get m k = Some it"
    using assms(1,2) by (simp add: obj_get_def)
  have "c \<noteq> k" if "map_option category (obj_get m c) = Some ?e" for c
    using that get not_own_child [OF assms(3), of it] by auto
  then have others: "filter (\<lambda>c. c \<noteq> k \<and> map_option category (obj_get m c) = Some ?e) (obj_keys m)
      = childrenOf m ?e"
    unfolding childrenOf_def by (intro filter_cong) auto
  have "(k, backfilled m k it) \<in> set (map (\<lambda>(k, it). (k, backfilled m k it)) m)"
    using assms(2) by force
  moreover have "distinct (map fst (map (\<lambda>(k, it). (k, backfilled m k it)) m))"
    using assms(1) by (simp add: case_prod_beta comp_def)
  ultimately have "map_of (map (\<lambda>(k, it). (k, backfilled m k it)) m) k = Some (backfilled m k it)"
    by (intro map_of_is_SomeI)
  then have "obj_get (backfill m) k = Some (backfilled m k it)"
    by (simp add: obj_get_def backfill_map [OF assms(1)])
  then show ?thesis
    unfolding others Let_def by (simp add: backfilled_def js_trim_Nil_iff list_all_iff)
qed


text \<open>
  The specification's example: \<^verbatim>\<open>A\<close> gets the description \<^verbatim>\<open>Entries: B, C\<close>, \<^verbatim>\<open>B\<close> keeps
  its description and \<^verbatim>\<open>C\<close>, without children, stays empty. In the second map the
  description of \<^verbatim>\<open>P\<close> is a space, a no-break space and a tab, which counts as empty;
  its children whose names are array indices are listed first, in numeric order.
\<close>

theorem backfill_description_witness:
  "distinct (map fst exampleMap)
   \<and> obj_get (backfill exampleMap) ''A''
       = Some \<lparr>description = ''Entries: B, C'', properties = [], category = [],
               item_imageUrl = None\<rparr>
   \<and> obj_get (backfill exampleMap) ''B''
       = Some \<lparr>description = ''d'', properties = [], category = ''A'', item_imageUrl = None\<rparr>
   \<and> obj_get (backfill exampleMap) ''C''
       = Some \<lparr>description = [], properties = [], category = ''A'', item_imageUrl = None\<rparr>
   \<and> obj_get (backfill numberedMap) ''P''
       = Some \<lparr>description = ''Entries: 9, 10, b'', properties = [], category = [],
               item_imageUrl = None\<rparr>"
proof -
  have d: "distinct (map fst exampleMap)" by (simp add: exampleMap_def)
  have a: "(''A'', \<lparr>description = [], properties = [], category = [], item_imageUrl = None\<rparr>)
      \<in> set exampleMap" by (simp add: exampleMap_def)
  show ?thesis
    using d backfill_description [OF d a]
    by (simp add: backfill_exampleMap backfill_numberedMap obj_get_def)
qed

section \<open>Properties of getCurrentContext\<close>

subsection \<open>The walks over the siblings\<close>

text \<open>
  A run of the backward loop from any values of its variables: it takes some number
  \<open>n\<close> of steps along the previous-sibling links, adds one to \<^verbatim>\<open>count\<close> for each sibling
  with content and puts the texts of these siblings in front of \<^verbatim>\<open>prefix\<close>.
\<close>

lemma lookBackwards_run:
  assumes "lookBackwards h limit cur count safety prefix = (p, c, s)"
  shows "\<exists>n. s = safety + n \<and> (safety \<le> 100 \<longrightarrow> s \<le> 100)
     \<and> length (siblingChain (getPreviousSibling h) cur n) = n
     \<and> c = count + length (filter (hasContent h) (siblingChain (getPreviousSibling h) cur n))
     \<and> p = concat (map (\<lambda>e. getTextSafe h (Some e) @ '' '')
               (rev (filter (hasContent h) (siblingChain (getPreviousSibling h) cur n)))) @ prefix
     \<and> int c \<le> max limit (int count)
     \<and> (limit \<le> int c \<or> 100 \<le> s
         \<or> length (siblingChain (getPreviousSibling h) cur (Suc n)) = n)"
  using assms
proof (induction h limit cur count safety prefix arbitrary: p c s rule: lookBackwards.induct)
  case (1 h limit cur count safety prefix)
  show ?case
  proof (cases "int count < limit \<and> safety < 100")
    case False
    then have "(p, c, s) = (prefix, count, safety)" using "1.prems" by auto
    then show ?thesis using False by (intro exI [of _ 0]) auto
  next
    case True
    show ?thesis
    proof (cases "getPreviousSibling h cur")
      case None
      then have "(p, c, s) = (prefix, count, safety)" using "1.prems" True by simp
      then show ?thesis using True None by (intro exI [of _ 0]) auto
    next
      case (Some cur')
      let ?txt = "getTextSafe h (Some cur')"
      show ?thesis
      proof (cases "hasContent h cur'")
        case yes: True
        then have c1: "0 < length (js_trim ?txt)" by (simp add: hasContent_def)
        from yes have run: "lookBackwards h limit cur' (count + 1) (safety + 1) (?txt @ '' '' @ prefix) = (p, c, s)"
          using "1.prems" True Some by (simp add: hasContent_def Let_def)
        obtain n where n: "s = safety + 1 + n" "safety + 1 \<le> 100 \<longrightarrow> s \<le> 100"
            "length (siblingChain (getPreviousSibling h) cur' n) = n"
            "c = count + 1 + length (filter (hasContent h) (siblingChain (getPreviousSibling h) cur' n))"
            "p = concat (map (\<lambda>e. getTextSafe h (Some e) @ '' '')
               (rev (filter (hasContent h) (siblingChain (getPreviousSibling h) cur' n)))) @ (?txt @ '' '' @ prefix)"
            "int c \<le> max limit (int (count + 1))"
            "limit \<le> int c \<or> 100 \<le> s \<or> length (siblingChain (getPreviousSibling h) cur' (Suc n)) = n"
          using "1.IH"(1) [OF True Some refl c1 run] by blast
        show ?thesis
          using n True Some yes by (intro exI [of _ "Suc n"]) auto
      next
        case no: False
        then have c1: "\<not> 0 < length (js_trim ?txt)" by (simp add: hasContent_def)
        from no have run: "lookBackwards h limit cur' count (safety + 1) prefix = (p, c, s)"
          using "1.prems" True Some by (simp add: hasContent_def Let_def)
        obtain n where n: "s = safety + 1 + n" "safety + 1 \<le> 100 \<longrightarrow> s \<le> 100"
            "length (siblingChain (getPreviousSibling h) cur' n) = n"
            "c = count + length (filter (hasContent h) (siblingChain (getPreviousSibling h) cur' n))"
            "p = concat (map (\<lambda>e. getTextSafe h (Some e) @ '' '')
               (rev (filter (hasContent h) (siblingChain (getPreviousSibling h) cur' n)))) @ prefix"
            "int c \<le> max limit (int count)"
            "limit \<le> int c \<or> 100 \<le> s \<or> length (siblingChain (getPreviousSibling h) cur' (Suc n)) = n"
          using "1.IH"(2) [OF True Some refl c1 run] by blast
        show ?thesis
          using n True Some no by (intro exI [of _ "Suc n"]) auto
      qed
    qed
  qed
qed

lemma lookForwards_run:
  assumes "lookForwards h limit cur count safety suffix = (p, c, s)"
  shows "\<exists>n. s = safety + n \<and> (safety \<le> 100 \<longrightarrow> s \<le> 100)
     \<and> length (siblingChain (getNextSibling h) cur n) = n
     \<and> c = count + length (filter (hasContent h) (siblingChain (getNextSibling h) cur n))
     \<and> p = suffix @ concat (map (\<lambda>e. '' '' @ getTextSafe h (Some e))
               (filter (hasContent h) (siblingChain (getNextSibling h) cur n)))
     \<and> int c \<le> max limit (int count)
     \<and> (limit \<le> int c \<or> 100 \<le> s
         \<or> length (siblingChain (getNextSibling h) cur (Suc n)) = n)"
  using assms
proof (induction h limit cur count safety suffix arbitrary: p c s rule: lookForwards.induct)
  case (1 h limit cur count safety suffix)
  show ?case
  proof (cases "int count < limit \<and> safety < 100")
    case False
    then have "(p, c, s) = (suffix, count, safety)" using "1.prems" by auto
    then show ?thesis using False by (intro exI [of _ 0]) auto
  next
    case True
    show ?thesis
    proof (cases "getNextSibling h cur")
      case None
      then have "(p, c, s) = (suffix, count, safety)" using "1.prems" True by simp
      then show ?thesis using True None by (intro exI [of _ 0]) auto
    next
      case (Some cur')
      let ?txt = "getTextSafe h (Some cur')"
      show ?thesis
      proof (cases "hasContent h cur'")
        case yes: True
        then have c1: "0 < length (js_trim ?txt)" by (simp add: hasContent_def)
        from yes have run: "lookForwards h limit cur' (count + 1) (safety + 1) (suffix @ '' '' @ ?txt) = (p, c, s)"
          using "1.prems" True Some by (simp add: hasContent_def Let_def)
        obtain n where n: "s = safety + 1 + n" "safety + 1 \<le> 100 \<longrightarrow> s \<le> 100"
            "length (siblingChain (getNextSibling h) cur' n) = n"
            "c = count + 1 + length (filter (hasContent h) (siblingChain (getNextSibling h) cur' n))"
            "p = (suffix @ '' '' @ ?txt) @ concat (map (\<lambda>e. '' '' @ getTextSafe h (Some e))
               (filter (hasContent h) (siblingChain (getNextSibling h) cur' n)))"
            "int c \<le> max limit (int (count + 1))"
            "limit \<le> int c \<or> 100 \<le> s \<or> length (siblingChain (getNextSibling h) cur' (Suc n)) = n"
          using "1.IH"(1) [OF True Some refl c1 run] by blast
        show ?thesis
          using n True Some yes by (intro exI [of _ "Suc n"]) auto
      next
        case no: False
        then have c1: "\<not> 0 < length (js_trim ?txt)" by (simp add: hasContent_def)
        from no have run: "lookForwards h limit cur' count (safety + 1) suffix = (p, c, s)"
          using "1.prems" True Some by (simp add: hasContent_def Let_def)
        obtain n where n: "s = safety + 1 + n" "safety + 1 \<le> 100 \<longrightarrow> s \<le> 100"
            "length (siblingChain (getNextSibling h) cur' n) = n"
            "c = count + length (filter (hasContent h) (siblingChain (getNextSibling h) cur' n))"
            "p = suffix @ concat (map (\<lambda>e. '' '' @ getTextSafe h (Some e))
               (filter (hasContent h) (siblingChain (getNextSibling h) cur' n)))"
            "int c \<le> max limit (int count)"
            "limit \<le> int c \<or> 100 \<le> s \<or> length (siblingChain (getNextSibling h) cur' (Suc n)) = n"
          using "1.IH"(2) [OF True Some refl c1 run] by blast
        show ?thesis
          using n True Some no by (intro exI [of _ "Suc n"]) auto
      qed
    qed
  qed
qed


lemma hasContent_iff:
  "hasContent h e \<longleftrightarrow> (\<exists>c\<in>set (getTextSafe h (Some e)). \<not> is_ws c)"
  by (simp add: hasContent_def js_trim_Nil_iff)

text \<open>
  C8. Both loops are total functions, whatever the sibling links are. The backward
  walk from the start block ends after \<open>s1\<close> steps, at most 100; it has then visited the
  first \<open>s1\<close> previous siblings, \<open>c1\<close> is the number of those whose trimmed text is not
  empty, never more than the limit, and the prefix is made of the texts of exactly those,
  each followed by a space, the farthest first. A sibling is counted exactly when its text
  has a character that is not white space; siblings whose text is empty or white space
  only are passed without being counted: the walk goes on until the limit is reached, 100
  steps are done, or there is no further sibling. The forward walk from the end block is
  the same along the next-sibling links, with the suffix made of a space and the text of
  every counted sibling in order.
\<close>

theorem context_walks:
  assumes "lookBackwards h limit startBlock 0 0 [] = (prefix, c1, s1)"
    and "lookForwards h limit endBlock 0 0 [] = (suffix, c2, s2)"
  shows "s1 \<le> 100 \<and> s2 \<le> 100
     \<and> length (siblingChain (getPreviousSibling h) startBlock s1) = s1
     \<and> c1 = length (filter (hasContent h) (siblingChain (getPreviousSibling h) startBlock s1))
     \<and> prefix = concat (map (\<lambda>e. getTextSafe h (Some e) @ '' '')
           (rev (filter (hasContent h) (siblingChain (getPreviousSibling h) startBlock s1))))
     \<and> int c1 \<le> max limit 0
     \<and> (limit \<le> int c1 \<or> s1 = 100
         \<or> length (siblingChain (getPreviousSibling h) startBlock (Suc s1)) = s1)
     \<and> length (siblingChain (getNextSibling h) endBlock s2) = s2
     \<and> c2 = length (filter (hasContent h) (siblingChain (getNextSibling h) endBlock s2))
     \<and> suffix = concat (map (\<lambda>e. '' '' @ getTextSafe h (Some e))
           (filter (hasContent h) (siblingChain (getNextSibling h) endBlock s2)))
     \<and> int c2 \<le> max limit 0
     \<and> (limit \<le> int c2 \<or> s2 = 100
         \<or> length (siblingChain (getNextSibling h) endBlock (Suc s2)) = s2)
     \<and> (\<forall>e. hasContent h e = (\<exists>c\<in>set (getTextSafe h (Some e)). \<not> is_ws c))"
proof -
  have b: "s1 \<le> 100
     \<and> length (siblingChain (getPreviousSibling h) startBlock s1) = s1
     \<and> c1 = length (filter (hasContent h) (siblingChain (getPreviousSibling h) startBlock s1))
     \<and> prefix = concat (map (\<lambda>e. getTextSafe h (Some e) @ '' '')
           (rev (filter (hasContent h) (siblingChain (getPreviousSibling h) startBlock s1))))
     \<and> int c1 \<le> max limit 0
     \<and> (limit \<le> int c1 \<or> s1 = 100
         \<or> length (siblingChain (getPreviousSibling h) startBlock (Suc s1)) = s1)"
    using lookBackwards_run [OF assms(1)] by auto
  have f: "s2 \<le> 100
     \<and> length (siblingChain (getNextSibling h) endBlock s2) = s2
     \<and> c2 = length (filter (hasContent h) (siblingChain (getNextSibling h) endBlock s2))
     \<and> suffix = concat (map (\<lambda>e. '' '' @ getTextSafe h (Some e))
           (filter (hasContent h) (siblingChain (getNextSibling h) endBlock s2)))
     \<and> int c2 \<le> max limit 0
     \<and> (limit \<le> int c2 \<or> s2 = 100
         \<or> length (siblingChain (getNextSibling h) endBlock (Suc s2)) = s2)"
    using lookForwards_run [OF assms(2)] by auto
  have w: "\<forall>e. hasContent h e = (\<exists>c\<in>set (getTextSafe h (Some e)). \<not> is_ws c)"
    by (simp add: hasContent_iff)
  from b f w show ?thesis by (elim conjE) (intro conjI; assumption)
qed

text \<open>
  The start block preceded, nearest first, by two empty paragraphs and \<^verbatim>\<open>hello\<close>, limit 1:
  the walk passes all three siblings and the prefix holds \<^verbatim>\<open>hello\<close> only. The same with
  the two nearest siblings holding a space and a tab, and a no-break space: they are
  passed without being counted. Forwards, a no-break space and two spaces are passed and
  \<^verbatim>\<open>a\<close> is taken. On a chain of empty siblings that never ends, both walks stop after 100
  steps.
\<close>

theorem context_walks_witness:
  "lookBackwards (paragraphs [''hello'', [], [], ''start'']) 1 3 0 0 [] = (''hello '', 1, 3)
   \<and> siblingChain (getPreviousSibling (paragraphs [''hello'', [], [], ''start''])) 3 3 = [2, 1, 0]
   \<and> filter (hasContent (paragraphs [''hello'', [], [], ''start''])) [2, 1, 0] = [0]
   \<and> lookBackwards (paragraphs [''hello'', [CHR 0xA0], '' '' @ [CHR 0x09], ''start'']) 1 3 0 0 []
       = (''hello '', 1, 3)
   \<and> filter (hasContent (paragraphs [''hello'', [CHR 0xA0], '' '' @ [CHR 0x09], ''start'']))
         [2, 1, 0] = [0]
   \<and> lookForwards (paragraphs [''start'', [CHR 0xA0], ''  '', ''a'', ''b'']) 1 0 0 0 []
       = ('' a'', 1, 3)
   \<and> lookForwards (paragraphs [''hello'', [CHR 0xA0], '' '' @ [CHR 0x09], ''start'']) 1 3 0 0 []
       = ([], 0, 0)
   \<and> lookBackwards endless 5 0 0 0 [] = ([], 0, 100)
   \<and> lookForwards endless 5 0 0 0 [] = ([], 0, 100)"
proof -
  have b0: "lookBackwards (paragraphs [''hello'', [], [], ''start'']) 1 3 0 0 [] = (''hello '', 1, 3)"
    by (simp add: paragraphs_def getTextSafe_def js_trim_def is_ws_def)
  have c: "siblingChain (getPreviousSibling (paragraphs [''hello'', [], [], ''start''])) 3 3 = [2, 1, 0]"
    by (simp add: paragraphs_def numeral_3_eq_3)
  have k0: "filter (hasContent (paragraphs [''hello'', [], [], ''start''])) [2, 1, 0] = [0]"
    by (simp add: hasContent_def paragraphs_def getTextSafe_def js_trim_def is_ws_def)
  have b: "lookBackwards (paragraphs [''hello'', [CHR 0xA0], '' '' @ [CHR 0x09], ''start'']) 1 3 0 0 []
      = (''hello '', 1, 3)"
    by (simp add: paragraphs_def getTextSafe_def js_trim_def is_ws_def)
  have k: "filter (hasContent (paragraphs [''hello'', [CHR 0xA0], '' '' @ [CHR 0x09], ''start'']))
      [2, 1, 0] = [0]"
    by (simp add: hasContent_def paragraphs_def getTextSafe_def js_trim_def is_ws_def)
  have f0: "lookForwards (paragraphs [''start'', [CHR 0xA0], ''  '', ''a'', ''b'']) 1 0 0 0 []
      = ('' a'', 1, 3)"
    by (simp add: paragraphs_def getTextSafe_def js_trim_def is_ws_def)
  have f: "lookForwards (paragraphs [''hello'', [CHR 0xA0], '' '' @ [CHR 0x09], ''start'']) 1 3 0 0 []
      = ([], 0, 0)"
    by (simp add: paragraphs_def)
  have e1: "lookBackwards endless 5 0 0 0 [] = ([], 0, 100)"
    by (simp add: endless_def getTextSafe_def js_trim_def)
  have e2: "lookForwards endless 5 0 0 0 [] = ([], 0, 100)"
    by (simp add: endless_def getTextSafe_def js_trim_def)
  show ?thesis
    using context_walks [OF b f] b0 c k0 b k f0 f e1 e2 by simp
qed

text \<open>
  The walk takes the nearest sibling first: when \<^verbatim>\<open>hello\<close> is the paragraph right before
  the start block and the empty paragraphs come before it, limit 1 is reached after one
  step.
\<close>

lemma nearest_sibling_first:
  "lookBackwards (paragraphs [[], [], ''hello'', ''start'']) 1 3 0 0 [] = (''hello '', 1, 1)"
  by (simp add: paragraphs_def getTextSafe_def js_trim_def is_ws_def)

subsection \<open>Selection and cursor\<close>

text \<open>
  C10. When there is a selection, the cursor has no part in the result: the core text,
  the start block and the end block are computed from the elements of the selection (the
  text of the paragraphs, list items and texts among them, the block parents of the first
  and the last element), and \<^verbatim>\<open>getCurrentContext\<close> returns the same with any cursor or
  none. The cursor is read only when the selection is \<^verbatim>\<open>null\<close>: the text and the block
  then come from its element.
\<close>

theorem selection_over_cursor:
  "captureCore h (Some elements) cursor = captureCore h (Some elements) None
   \<and> getCurrentContext h limit (Some elements) cursor
       = getCurrentContext h limit (Some elements) None
   \<and> captureCore h (Some elements) cursor =
       (if length elements > 0 then
          (case getBlockParent h (Some (hd elements)) of
             None \<Rightarrow> None
           | Some startBlock \<Rightarrow>
               (case getBlockParent h (Some (last elements)) of
                  None \<Rightarrow> None
                | Some endBlock \<Rightarrow> Some (selectionText h elements [], startBlock, endBlock)))
        else Some ([], None, None))
   \<and> captureCore h None (Some ce) =
       (case getBlockParent h (Some ce) of
          None \<Rightarrow> None
        | Some startBlock \<Rightarrow> Some (getTextSafe h startBlock, startBlock, startBlock))"
proof -
  have 1: "captureCore h (Some elements) c = captureCore h (Some elements) None" for c
    by (simp add: captureCore_def)
  have 2: "getCurrentContext h limit (Some elements) cursor
       = getCurrentContext h limit (Some elements) None"
    by (simp add: getCurrentContext_def 1 [of cursor])
  have 3: "captureCore h (Some elements) cursor =
       (if length elements > 0 then
          (case getBlockParent h (Some (hd elements)) of
             None \<Rightarrow> None
           | Some startBlock \<Rightarrow>
               (case getBlockParent h (Some (last elements)) of
                  None \<Rightarrow> None
                | Some endBlock \<Rightarrow> Some (selectionText h elements [], startBlock, endBlock)))
        else Some ([], None, None))"
  proof (cases "elements = []")
    case True
    then show ?thesis by (simp add: captureCore_def)
  next
    case False
    then have "elements ! 0 = hd elements" "elements ! (length elements - 1) = last elements"
      by (simp_all add: hd_conv_nth last_conv_nth)
    then show ?thesis using False by (simp add: captureCore_def split: option.splits)
  qed
  have 4: "captureCore h None (Some ce) =
       (case getBlockParent h (Some ce) of
          None \<Rightarrow> None
        | Some startBlock \<Rightarrow> Some (getTextSafe h startBlock, startBlock, startBlock))"
    by (auto simp: captureCore_def getTextSafe_def split: option.splits)
  show ?thesis using 1 [of cursor] 2 3 4 by (intro conjI)
qed

text \<open>
  Three paragraphs, the first two selected and the cursor in the third: the context is
  that of the selection; without the selection it is that of the cursor; with a selection
  that has no element it is empty, the cursor notwithstanding.
\<close>

theorem selection_over_cursor_witness:
  "getCurrentContext (paragraphs [''p0'', ''p1'', ''p2'']) 0 (Some [0, 1]) (Some 2) = Some '' p0 p1  ''
   \<and> getCurrentContext (paragraphs [''p0'', ''p1'', ''p2'']) 0 (Some [0, 1]) None = Some '' p0 p1  ''
   \<and> getCurrentContext (paragraphs [''p0'', ''p1'', ''p2'']) 0 None (Some 2) = Some '' p2 ''
   \<and> getCurrentContext (paragraphs [''p0'', ''p1'', ''p2'']) 0 (Some []) (Some 2) = Some []
   \<and> captureCore (paragraphs [''p0'', ''p1'', ''p2'']) (Some [0, 1]) (Some 2)
       = Some (''p0 p1 '', Some 0, Some 1)"
  using selection_over_cursor [of "paragraphs [''p0'', ''p1'', ''p2'']" "[0, 1]" "Some 2" 0 2]
  by (simp add: getCurrentContext_def captureCore_def getBlockParent.simps paragraphs_def
      getTextSafe_def)

end
